theory Spec2Isabelle
  imports Main "HOL-Library.Char_ord" "HOL-Library.List_Lexorder" "HOL-Library.Word"
begin

section \<open>The voting queue of App.vue\<close>

text \<open>
  The development embeds the script of \<^verbatim>\<open>vue-voting-poc/src/App.vue\<close> and the table
  declared in \<^verbatim>\<open>db.js\<close>. A vote is the object that \<^verbatim>\<open>castVote\<close> stores; its
  \<^verbatim>\<open>status\<close> is one of the three strings the script writes
  (\<^verbatim>\<open>'queued'\<close>, \<^verbatim>\<open>'sending'\<close>, \<^verbatim>\<open>'failed'\<close>). \<^verbatim>\<open>retries\<close> is a JavaScript
  number, a double, that starts at 0 and is only ever written as a stored value plus one:
  the field holds the integer that the double denotes, and the addition is \<open>plus_one\<close>
  below.
\<close>

datatype status = Queued | Sending | Failed

record vote =
  vote_id :: string
  idempotencyKey :: string
  status :: status
  retries :: nat
  signature :: string

datatype error = ConstraintError | NetworkError

text \<open>
  \<^verbatim>\<open>n + 1\<close> on a double that denotes the natural number \<open>n\<close>. Below \<open>2^53\<close> every
  integer is a double and the sum is exact. From \<open>2^53\<close> to \<open>2^54\<close> the doubles are the
  even integers, \<open>n + 1\<close> lies halfway between two of them and is rounded to the one whose
  significand \<open>n div 2\<close> is even. From \<open>2^54\<close> on the doubles are at least 4 apart and the
  sum rounds back to \<open>n\<close>.
\<close>

definition plus_one :: "nat \<Rightarrow> nat" where
  "plus_one n =
     (if n < 2 ^ 53 then n + 1
      else if n < 2 ^ 54 \<and> odd (n div 2) then n + 2
      else n)"

subsection \<open>The Dexie table \<^verbatim>\<open>db.votes\<close>\<close>

text \<open>
  \<^verbatim>\<open>db.js\<close> declares \<^verbatim>\<open>votes: 'id, status, retries, signature'\<close> (a second copy
  of the file also indexes \<^verbatim>\<open>idempotencyKey\<close>): the primary key is \<^verbatim>\<open>id\<close>, and no
  index is unique. The table is the list of its objects in primary-key order, which is the
  order in which \<^verbatim>\<open>toArray()\<close> yields them, for the whole table and for the objects
  under one key of the \<^verbatim>\<open>status\<close> index alike. Keys are strings, compared
  lexicographically by character code.
\<close>

type_synonym table = "vote list"

definition keys :: "table \<Rightarrow> string set" where
  "keys tbl = vote_id ` set tbl"

text \<open>\<^verbatim>\<open>add\<close> rejects an object whose primary key is already present.\<close>

definition table_add :: "vote \<Rightarrow> table \<Rightarrow> error + table" where
  "table_add v tbl =
     (if vote_id v \<in> keys tbl then Inl ConstraintError
      else Inr (insort_key vote_id v tbl))"

text \<open>
  \<^verbatim>\<open>update(key, changes)\<close> applies the changes to the object stored under the key and
  does nothing, without an error, when there is none.
\<close>

definition table_update :: "string \<Rightarrow> (vote \<Rightarrow> vote) \<Rightarrow> table \<Rightarrow> table" where
  "table_update k changes tbl = map (\<lambda>r. if vote_id r = k then changes r else r) tbl"

definition table_delete :: "string \<Rightarrow> table \<Rightarrow> table" where
  "table_delete k tbl = filter (\<lambda>r. vote_id r \<noteq> k) tbl"

text \<open>\<^verbatim>\<open>where('status').equals(st).toArray()\<close>\<close>

definition table_where :: "status \<Rightarrow> table \<Rightarrow> vote list" where
  "table_where st tbl = filter (\<lambda>r. status r = st) tbl"

text \<open>\<^verbatim>\<open>get(key)\<close>: the object stored under a key, if any. The script does not call it;
  the theorems use it to speak of the vote under a key.\<close>

definition table_get :: "string \<Rightarrow> table \<Rightarrow> vote option" where
  "table_get k tbl = find (\<lambda>r. vote_id r = k) tbl"

subsection \<open>State\<close>

text \<open>
  The component's state: the table, the reactive \<^verbatim>\<open>votes\<close> array that the template
  renders, and the \<^verbatim>\<open>isOnline\<close> flag. The field \<open>rand\<close> is the environment's part:
  \<open>rand s n\<close> is the value that the comparison \<^verbatim>\<open>Math.random() > 0.1\<close> of
  \<^verbatim>\<open>sendVote\<close> will have the \<open>n\<close>-th time it is evaluated from now on.
\<close>

record state =
  db :: table
  votes :: "vote list"
  isOnline :: bool
  rand :: "nat \<Rightarrow> bool"

subsection \<open>Utilities\<close>

fun decimal :: "nat \<Rightarrow> string" where
  "decimal n =
     (if n < 10 then [char_of (48 + n)]
      else decimal (n div 10) @ [char_of (48 + n mod 10)])"

text \<open>
  \<^verbatim>\<open>generateId\<close>: \<open>now\<close> is the value of \<^verbatim>\<open>Date.now()\<close> and \<open>suffix\<close> the string
  \<^verbatim>\<open>Math.random().toString(36).substring(2, 8)\<close>, both given by the environment.
\<close>

definition generateId :: "nat \<Rightarrow> string \<Rightarrow> string" where
  "generateId now suffix = ''vote-'' @ decimal now @ ''-'' @ suffix"

definition hexdigit :: "nat \<Rightarrow> char" where
  "hexdigit d = (if d < 10 then char_of (48 + d) else char_of (87 + d))"

fun toString16 :: "nat \<Rightarrow> string" where
  "toString16 n =
     (if n < 16 then [hexdigit n]
      else toString16 (n div 16) @ [hexdigit (n mod 16)])"

definition padStart :: "nat \<Rightarrow> char \<Rightarrow> string \<Rightarrow> string" where
  "padStart n c s = replicate (n - length s) c @ s"

text \<open>\<^verbatim>\<open>TextEncoder.encode\<close>: a string is held as its UTF-8 bytes.\<close>

definition encode :: "string \<Rightarrow> 8 word list" where
  "encode s = map (\<lambda>c. word_of_nat (of_char c)) s"

text \<open>
  \<^verbatim>\<open>signVote\<close>: the hexadecimal rendering of the digest of the encoded string. The
  digest \<^verbatim>\<open>crypto.subtle.digest('SHA-256', _)\<close> is the platform's and is a parameter.
\<close>

definition signVote :: "(8 word list \<Rightarrow> 8 word list) \<Rightarrow> string \<Rightarrow> string" where
  "signVote digest voteId =
     (let data = encode voteId;
          hashBuffer = digest data
      in concat (map (\<lambda>b. padStart 2 (CHR ''0'') (toString16 (unat b))) hashBuffer))"

subsection \<open>Main actions\<close>

definition loadVotes :: "state \<Rightarrow> state" where
  "loadVotes s = s\<lparr>votes := db s\<rparr>"

text \<open>
  \<^verbatim>\<open>castVote\<close>. The identifier's ingredients and the value \<open>uuid\<close> of
  \<^verbatim>\<open>crypto.randomUUID()\<close> come from the environment. When \<^verbatim>\<open>add\<close> rejects, the
  promise rejects and \<^verbatim>\<open>loadVotes\<close> is not reached.
\<close>

definition castVote ::
  "(8 word list \<Rightarrow> 8 word list) \<Rightarrow> nat \<Rightarrow> string \<Rightarrow> string \<Rightarrow> state \<Rightarrow> error + state" where
  "castVote digest now suffix uuid s =
     (let id = generateId now suffix;
          idempotencyKey = uuid;
          signature = signVote digest (id @ idempotencyKey)
      in case table_add \<lparr>vote_id = id, idempotencyKey = idempotencyKey, status = Queued,
                      retries = 0, signature = signature\<rparr> (db s) of
           Inl e \<Rightarrow> Inl e
         | Inr tbl \<Rightarrow> Inr (loadVotes (s\<lparr>db := tbl\<rparr>)))"

text \<open>
  \<^verbatim>\<open>sendVote\<close> returns \<^verbatim>\<open>false\<close> when offline, before anything is sent; otherwise it
  waits, draws, and either throws the network error or returns \<^verbatim>\<open>true\<close>. The wait of
  500 ms is not represented.
\<close>

definition sendVote :: "state \<Rightarrow> vote \<Rightarrow> (error + bool) \<times> state" where
  "sendVote s vote =
     (if \<not> isOnline s then (Inr False, s)
      else let success = rand s 0;
               s' = s\<lparr>rand := (\<lambda>n. rand s (Suc n))\<rparr>
           in if \<not> success then (Inl NetworkError, s') else (Inr True, s'))"

text \<open>
  A call of \<^verbatim>\<open>sendVote\<close> is logged with the key of its argument and its result. The
  calls that reach the simulated request are those whose result is not \<open>Inr False\<close>.
\<close>

type_synonym call = "string \<times> (error + bool)"

definition attempted :: "call list \<Rightarrow> string list" where
  "attempted log = map fst (filter (\<lambda>c. snd c \<noteq> Inr False) log)"

definition delivered :: "call list \<Rightarrow> string list" where
  "delivered log = map fst (filter (\<lambda>c. snd c = Inr True) log)"

definition failed :: "call list \<Rightarrow> string list" where
  "failed log = map fst (filter (\<lambda>c. snd c = Inl NetworkError) log)"

text \<open>
  The body of the loop of \<^verbatim>\<open>processQueue\<close> for one object \<open>vote\<close> of the snapshot.
  Only \<^verbatim>\<open>sendVote\<close> throws, so the \<^verbatim>\<open>catch\<close> block runs exactly on its error.
\<close>

definition processVote :: "vote \<Rightarrow> state \<Rightarrow> state \<times> call list" where
  "processVote vote s =
     (let s1 = s\<lparr>db := table_update (vote_id vote) (\<lambda>r. r\<lparr>status := Sending\<rparr>) (db s)\<rparr>;
          (res, s2) = sendVote s1 vote
      in case res of
           Inr success \<Rightarrow>
             (if success then s2\<lparr>db := table_delete (vote_id vote) (db s2)\<rparr> else s2,
              [(vote_id vote, res)])
         | Inl e \<Rightarrow>
             (s2\<lparr>db := table_update (vote_id vote)
                         (\<lambda>r. r\<lparr>status := Failed, retries := plus_one (retries vote)\<rparr>) (db s2)\<rparr>,
              [(vote_id vote, res)]))"

fun processLoop :: "vote list \<Rightarrow> state \<Rightarrow> state \<times> call list" where
  "processLoop [] s = (s, [])"
| "processLoop (vote # queued) s =
     (let (s1, l1) = processVote vote s;
          (s2, l2) = processLoop queued s1
      in (s2, l1 @ l2))"

definition processQueue :: "state \<Rightarrow> state \<times> call list" where
  "processQueue s =
     (let queued = table_where Queued (db s);
          (s', log) = processLoop queued s
      in (loadVotes s', log))"

definition toggleOnline :: "state \<Rightarrow> state" where
  "toggleOnline s = s\<lparr>isOnline := \<not> isOnline s\<rparr>"

subsection \<open>Runs\<close>

text \<open>
  The component is driven by the two buttons and by the timer that \<^verbatim>\<open>onMounted\<close>
  starts. A rejected \<^verbatim>\<open>castVote\<close> leaves the state as it was. In a run each event
  completes before the next one starts, a sweep included; sweeps that overlap are the
  subject of \<open>play\<close> below.
\<close>

datatype event = CastVote nat string string | ToggleOnline | ProcessQueue

fun fire :: "(8 word list \<Rightarrow> 8 word list) \<Rightarrow> event \<Rightarrow> state \<Rightarrow> state \<times> call list" where
  "fire digest (CastVote now suffix uuid) s =
     (case castVote digest now suffix uuid s of Inl e \<Rightarrow> (s, []) | Inr s' \<Rightarrow> (s', []))"
| "fire digest ToggleOnline s = (toggleOnline s, [])"
| "fire digest ProcessQueue s = processQueue s"

fun run :: "(8 word list \<Rightarrow> 8 word list) \<Rightarrow> event list \<Rightarrow> state \<Rightarrow> state \<times> call list" where
  "run digest [] s = (s, [])"
| "run digest (e # es) s =
     (let (s1, l1) = fire digest e s;
          (s2, l2) = run digest es s1
      in (s2, l1 @ l2))"

text \<open>
  The calls of \<^verbatim>\<open>processQueue\<close> are asynchronous: between two iterations of its loop
  the buttons may fire. \<open>processLoopEnv\<close> is the loop with the button events that
  arrive before each iteration made explicit, and \<open>processQueueEnv\<close> the sweep that
  takes its snapshot first and then meets the events \<open>env\<close> (one list per iteration,
  missing lists being empty) and \<open>fin\<close> before the final \<^verbatim>\<open>loadVotes\<close>.
\<close>

datatype button = Cast nat string string | Toggle

fun press :: "(8 word list \<Rightarrow> 8 word list) \<Rightarrow> button \<Rightarrow> state \<Rightarrow> state" where
  "press digest (Cast now suffix uuid) s =
     (case castVote digest now suffix uuid s of Inl e \<Rightarrow> s | Inr s' \<Rightarrow> s')"
| "press digest Toggle s = toggleOnline s"

fun processLoopEnv ::
  "(8 word list \<Rightarrow> 8 word list) \<Rightarrow> button list list \<Rightarrow> vote list \<Rightarrow> state \<Rightarrow> state \<times> call list" where
  "processLoopEnv digest env [] s = (s, [])"
| "processLoopEnv digest env (vote # queued) s =
     (let s0 = fold (press digest) (case env of [] \<Rightarrow> [] | bs # _ \<Rightarrow> bs) s;
          (s1, l1) = processVote vote s0;
          (s2, l2) = processLoopEnv digest (tl env) queued s1
      in (s2, l1 @ l2))"

definition processQueueEnv ::
  "(8 word list \<Rightarrow> 8 word list) \<Rightarrow> button list list \<Rightarrow> button list \<Rightarrow> state \<Rightarrow> state \<times> call list" where
  "processQueueEnv digest env fin s =
     (let queued = table_where Queued (db s);
          (s', log) = processLoopEnv digest env queued s
      in (loadVotes (fold (press digest) fin s'), log))"

subsection \<open>Sweeps that overlap\<close>

text \<open>
  \<^verbatim>\<open>setInterval(processQueue, 3000)\<close> starts a sweep every three seconds whether or not
  the previous one has ended, and a sweep waits 500 ms for each vote it sends while
  online, so that sweeps overlap as soon as one of them has more than a few votes to send.
  A sweep gives way to the others wherever it awaits. A running sweep is the rest of its
  snapshot together with the place where it waits: before the write of
  \<^verbatim>\<open>'sending'\<close> for the first vote of the rest (\<open>Claim\<close>), before the call of
  \<^verbatim>\<open>sendVote\<close> for it (\<open>Call\<close>), inside the wait of \<^verbatim>\<open>sendVote\<close> (\<open>Wait\<close>), or
  after its final \<^verbatim>\<open>loadVotes\<close> (\<open>Done\<close>).
\<close>

datatype pc = Claim | Call | Wait | Done

type_synonym sweep = "vote list \<times> pc"

text \<open>
  One sweep runs up to its next await: the new state, the sweep's new place and the call
  of \<^verbatim>\<open>sendVote\<close> that has ended, if any. Run without interruption, the two or three
  steps for one vote are \<open>processVote\<close>.
\<close>

fun advance :: "state \<Rightarrow> sweep \<Rightarrow> state \<times> sweep \<times> call list" where
  "advance s (queued, Done) = (s, (queued, Done), [])"
| "advance s ([], p) = (loadVotes s, ([], Done), [])"
| "advance s (vote # queued, Claim) =
     (s\<lparr>db := table_update (vote_id vote) (\<lambda>r. r\<lparr>status := Sending\<rparr>) (db s)\<rparr>,
      (vote # queued, Call), [])"
| "advance s (vote # queued, Call) =
     (if \<not> isOnline s then (s, (queued, Claim), [(vote_id vote, Inr False)])
      else (s, (vote # queued, Wait), []))"
| "advance s (vote # queued, Wait) =
     (let success = rand s 0;
          s' = s\<lparr>rand := (\<lambda>n. rand s (Suc n))\<rparr>
      in if \<not> success
         then (s'\<lparr>db := table_update (vote_id vote)
                      (\<lambda>r. r\<lparr>status := Failed, retries := plus_one (retries vote)\<rparr>) (db s')\<rparr>,
               (queued, Claim), [(vote_id vote, Inl NetworkError)])
         else (s'\<lparr>db := table_delete (vote_id vote) (db s')\<rparr>,
               (queued, Claim), [(vote_id vote, Inr True)]))"

text \<open>
  What can happen next: the timer fires and a new sweep takes its snapshot, the sweep
  with a given number goes on to its next await, or a button is pressed.
\<close>

datatype action = Timer | Resume nat | Press button

fun act ::
  "(8 word list \<Rightarrow> 8 word list) \<Rightarrow> action \<Rightarrow> state \<times> sweep list \<Rightarrow>
     (state \<times> sweep list) \<times> call list" where
  "act digest Timer (s, ws) = ((s, ws @ [(table_where Queued (db s), Claim)]), [])"
| "act digest (Resume i) (s, ws) =
     (if i < length ws
      then let (s', w', l) = advance s (ws ! i) in ((s', ws[i := w']), l)
      else ((s, ws), []))"
| "act digest (Press b) (s, ws) = ((press digest b s, ws), [])"

fun play ::
  "(8 word list \<Rightarrow> 8 word list) \<Rightarrow> action list \<Rightarrow> state \<times> sweep list \<Rightarrow>
     (state \<times> sweep list) \<times> call list" where
  "play digest [] c = (c, [])"
| "play digest (a # as) c =
     (let (c1, l1) = act digest a c;
          (c2, l2) = play digest as c1
      in (c2, l1 @ l2))"

text \<open>
  A sweep holds its votes when no other sweep has touched them since it read them: the
  votes it has still to claim are stored as they are in its snapshot, and the vote it is
  sending is stored as in the snapshot but for the status \<^verbatim>\<open>'sending'\<close> that the sweep
  itself wrote.
\<close>

fun held :: "state \<Rightarrow> sweep \<Rightarrow> bool" where
  "held s (queued, Done) = True"
| "held s (queued, Claim) =
     (distinct (map vote_id queued) \<and>
      list_all (\<lambda>u. table_get (vote_id u) (db s) = Some u) queued)"
| "held s ([], p) = True"
| "held s (vote # queued, p) =
     (distinct (map vote_id (vote # queued)) \<and>
      table_get (vote_id vote) (db s) = Some (vote\<lparr>status := Sending\<rparr>) \<and>
      list_all (\<lambda>u. table_get (vote_id u) (db s) = Some u) queued)"

subsection \<open>The effect of a sweep on one key\<close>

text \<open>
  What a call of \<^verbatim>\<open>sendVote\<close> with result \<open>res\<close> (or no call, \<open>None\<close>) does to the
  object stored under the call's key: deleted on \<^verbatim>\<open>true\<close>, left as \<^verbatim>\<open>'sending'\<close> on
  \<^verbatim>\<open>false\<close>, marked \<^verbatim>\<open>'failed'\<close> with its retries plus one on an error.
\<close>

definition effect :: "(error + bool) option \<Rightarrow> vote option \<Rightarrow> vote option" where
  "effect res old =
     (case res of
        None \<Rightarrow> old
      | Some (Inr True) \<Rightarrow> None
      | Some (Inr False) \<Rightarrow> map_option (\<lambda>r. r\<lparr>status := Sending\<rparr>) old
      | Some (Inl e) \<Rightarrow> map_option (\<lambda>r. r\<lparr>status := Failed, retries := plus_one (retries r)\<rparr>) old)"

text \<open>The states that a run passes through, the first one included.\<close>

fun states :: "(8 word list \<Rightarrow> 8 word list) \<Rightarrow> event list \<Rightarrow> state \<Rightarrow> state list" where
  "states digest [] s = [s]"
| "states digest (e # es) s = s # states digest es (fst (fire digest e s))"

subsection \<open>Sample data\<close>

definition vote_a :: vote where
  "vote_a = \<lparr>vote_id = ''vote-1-a'', idempotencyKey = ''key-a'', status = Queued,
             retries = 0, signature = ''5e''\<rparr>"

definition vote_b :: vote where
  "vote_b = \<lparr>vote_id = ''vote-2-b'', idempotencyKey = ''key-b'', status = Queued,
             retries = 0, signature = ''07''\<rparr>"

text \<open>The state after \<^verbatim>\<open>onMounted\<close> has loaded a table.\<close>

definition mount :: "bool \<Rightarrow> (nat \<Rightarrow> bool) \<Rightarrow> table \<Rightarrow> state" where
  "mount online rnd tbl = \<lparr>db = tbl, votes = tbl, isOnline = online, rand = rnd\<rparr>"

text \<open>A stand-in for the platform's digest, for evaluating \<^verbatim>\<open>castVote\<close>.\<close>

definition digest0 :: "8 word list \<Rightarrow> 8 word list" where
  "digest0 data = [word_of_nat (length data), 171]"

text \<open>Seven queued votes, enough for a sweep to last longer than the timer's period.\<close>

definition ballot :: "nat \<Rightarrow> vote" where
  "ballot n = \<lparr>vote_id = generateId n ''x'', idempotencyKey = decimal n, status = Queued,
               retries = 0, signature = ''00''\<rparr>"

definition ballots :: table where
  "ballots = map ballot [1..<8]"

section \<open>Properties of the table and of one sweep\<close>

lemma plus_one_exact: "n < 2 ^ 53 \<Longrightarrow> plus_one n = n + 1"
  by (simp add: plus_one_def)

lemma plus_one_ge: "n \<le> plus_one n"
  by (simp add: plus_one_def)

lemma plus_one_0: "plus_one 0 = 1"
  by (simp add: plus_one_def)

lemma plus_one_code [code]:
  "plus_one n =
     (if int n < 9007199254740992 then n + 1
      else if int n < 18014398509481984 \<and> odd (n div 2) then n + 2
      else n)"
  by (simp add: plus_one_def)

lemma keys_get: "keys tbl = {k. table_get k tbl \<noteq> None}"
  by (auto simp: keys_def table_get_def find_None_iff)

lemma table_get_SomeD: "table_get k tbl = Some r \<Longrightarrow> r \<in> set tbl \<and> vote_id r = k"
  unfolding table_get_def by (induction tbl) (auto split: if_splits)

lemma table_get_distinct:
  "distinct (map vote_id tbl) \<Longrightarrow> r \<in> set tbl \<Longrightarrow> table_get (vote_id r) tbl = Some r"
  unfolding table_get_def by (induction tbl) auto

lemma table_get_update:
  "(\<And>r. vote_id (f r) = vote_id r) \<Longrightarrow>
   table_get k' (table_update k f tbl) =
     (if k' = k then map_option f (table_get k tbl) else table_get k' tbl)"
  unfolding table_get_def table_update_def by (induction tbl) auto

lemma table_get_delete:
  "table_get k' (table_delete k tbl) = (if k' = k then None else table_get k' tbl)"
  unfolding table_get_def table_delete_def by (induction tbl) auto

lemma table_get_insort:
  "vote_id v \<notin> keys tbl \<Longrightarrow>
   table_get k' (insort_key vote_id v tbl) =
     (if k' = vote_id v then Some v else table_get k' tbl)"
  unfolding table_get_def keys_def by (induction tbl) auto

lemma ids_update:
  "(\<And>r. vote_id (f r) = vote_id r) \<Longrightarrow> map vote_id (table_update k f tbl) = map vote_id tbl"
  unfolding table_update_def by (induction tbl) auto

lemma ids_delete:
  "map vote_id (table_delete k tbl) = filter (\<lambda>i. i \<noteq> k) (map vote_id tbl)"
  unfolding table_delete_def by (induction tbl) auto

lemma table_delete_update:
  "(\<And>r. vote_id (f r) = vote_id r) \<Longrightarrow> table_delete k (table_update k f tbl) = table_delete k tbl"
  unfolding table_delete_def table_update_def by (induction tbl) auto

lemma table_update_update:
  "(\<And>r. vote_id (f r) = vote_id r) \<Longrightarrow>
   table_update k g (table_update k f tbl) = table_update k (\<lambda>r. g (f r)) tbl"
  unfolding table_update_def by (induction tbl) auto

lemma processVote_db:
  "db (fst (processVote v s)) =
     (if \<not> isOnline s then table_update (vote_id v) (\<lambda>r. r\<lparr>status := Sending\<rparr>) (db s)
      else if rand s 0 then table_delete (vote_id v) (db s)
      else table_update (vote_id v) (\<lambda>r. r\<lparr>status := Failed, retries := plus_one (retries v)\<rparr>) (db s))"
  by (simp add: processVote_def sendVote_def Let_def table_delete_update table_update_update)

lemma processVote_log:
  "snd (processVote v s) =
     [(vote_id v, if \<not> isOnline s then Inr False
                  else if rand s 0 then Inr True else Inl NetworkError)]"
  by (simp add: processVote_def sendVote_def Let_def)

lemma processVote_isOnline: "isOnline (fst (processVote v s)) = isOnline s"
  by (simp add: processVote_def sendVote_def Let_def)

lemma processVote_get:
  "table_get k (db (fst (processVote v s))) =
     (if k \<noteq> vote_id v then table_get k (db s)
      else case snd (hd (snd (processVote v s))) of
             Inr True \<Rightarrow> None
           | Inr False \<Rightarrow> map_option (\<lambda>r. r\<lparr>status := Sending\<rparr>) (table_get k (db s))
           | Inl e \<Rightarrow> map_option (\<lambda>r. r\<lparr>status := Failed, retries := plus_one (retries v)\<rparr>)
                        (table_get k (db s)))"
  by (simp add: processVote_db processVote_log table_get_update table_get_delete)

lemma processVote_ids:
  "map vote_id (db (fst (processVote v s))) = map vote_id (db s) \<or>
   map vote_id (db (fst (processVote v s))) = filter (\<lambda>i. i \<noteq> vote_id v) (map vote_id (db s))"
  by (simp add: processVote_db ids_update ids_delete)

lemma processVote_distinct:
  "distinct (map vote_id (db s)) \<Longrightarrow> distinct (map vote_id (db (fst (processVote v s))))"
  using processVote_ids [of v s] by (auto simp: distinct_filter)

lemma processLoop_ids: "map fst (snd (processLoop q s)) = map vote_id q"
  by (induction q arbitrary: s) (simp_all add: split_beta Let_def processVote_log)

lemma processLoop_ids_set: "fst ` set (snd (processLoop q s)) = vote_id ` set q"
  using arg_cong [OF processLoop_ids, of set q s] by simp

lemma processLoop_isOnline: "isOnline (fst (processLoop q s)) = isOnline s"
  by (induction q arbitrary: s) (simp_all add: split_beta Let_def processVote_isOnline)

lemma processLoop_distinct:
  "distinct (map vote_id (db s)) \<Longrightarrow> distinct (map vote_id (db (fst (processLoop q s))))"
  by (induction q arbitrary: s) (simp_all add: split_beta Let_def processVote_distinct)

lemma map_of_log_append:
  "map_of (l1 @ l2) k = (case map_of l1 k of None \<Rightarrow> map_of l2 k | Some x \<Rightarrow> Some x)"
  by (simp add: map_add_def)

lemma processLoop_get:
  "distinct (map vote_id q) \<Longrightarrow>
   (\<And>u. u \<in> set q \<Longrightarrow> table_get (vote_id u) (db s) = Some u) \<Longrightarrow>
   table_get k (db (fst (processLoop q s))) =
     effect (map_of (snd (processLoop q s)) k) (table_get k (db s))"
proof (induction q arbitrary: s)
  case Nil
  show ?case by (simp add: effect_def)
next
  case (Cons v q)
  let ?s1 = "fst (processVote v s)"
  let ?res = "snd (hd (snd (processVote v s)))"
  have fresh: "vote_id v \<notin> vote_id ` set q" and dq: "distinct (map vote_id q)"
    using Cons.prems(1) by auto
  have v: "table_get (vote_id v) (db s) = Some v"
    using Cons.prems(2) by simp
  have snap: "table_get (vote_id u) (db ?s1) = Some u" if "u \<in> set q" for u
  proof -
    have "vote_id u \<noteq> vote_id v" using that fresh by (metis imageI)
    then show ?thesis using Cons.prems(2) [of u] that by (simp add: processVote_get)
  qed
  have IH: "table_get k (db (fst (processLoop q ?s1))) =
              effect (map_of (snd (processLoop q ?s1)) k) (table_get k (db ?s1))"
    using Cons.IH [OF dq snap] by simp
  have l1: "snd (processVote v s) = [(vote_id v, ?res)]"
    by (simp add: processVote_log)
  have unfold: "processLoop (v # q) s =
      (fst (processLoop q ?s1), [(vote_id v, ?res)] @ snd (processLoop q ?s1))"
    using l1 by (simp add: split_beta Let_def)
  show ?case
  proof (cases "k = vote_id v")
    case True
    have "map_of (snd (processLoop q ?s1)) k = None"
      using fresh True by (simp add: map_of_eq_None_iff processLoop_ids_set)
    then have "table_get k (db (fst (processLoop q ?s1))) = table_get k (db ?s1)"
      using IH by (simp add: effect_def)
    then show ?thesis
      using True v unfolding unfold
      by (simp add: processVote_get effect_def split: sum.splits bool.splits)
  next
    case False
    then show ?thesis
      using IH unfolding unfold by (simp add: processVote_get)
  qed
qed

lemma snapshot_distinct:
  "distinct (map vote_id tbl) \<Longrightarrow> distinct (map vote_id (table_where st tbl))"
  unfolding table_where_def by (simp add: distinct_map_filter)

lemma snapshot_get:
  "distinct (map vote_id tbl) \<Longrightarrow> u \<in> set (table_where st tbl) \<Longrightarrow>
   table_get (vote_id u) tbl = Some u"
  unfolding table_where_def by (simp add: table_get_distinct)

lemma processQueue_db: "db (fst (processQueue s)) = db (fst (processLoop (table_where Queued (db s)) s))"
  by (simp add: processQueue_def Let_def split_beta loadVotes_def)

lemma processQueue_log: "snd (processQueue s) = snd (processLoop (table_where Queued (db s)) s)"
  by (simp add: processQueue_def Let_def split_beta)

lemma processQueue_get:
  "distinct (map vote_id (db s)) \<Longrightarrow>
   table_get k (db (fst (processQueue s))) =
     effect (map_of (snd (processQueue s)) k) (table_get k (db s))"
  unfolding processQueue_db processQueue_log
  by (rule processLoop_get) (simp_all add: snapshot_distinct snapshot_get)

lemma processQueue_ids:
  "map fst (snd (processQueue s)) = map vote_id (table_where Queued (db s))"
  by (simp add: processQueue_log processLoop_ids)

lemma processQueue_distinct:
  "distinct (map vote_id (db s)) \<Longrightarrow> distinct (map vote_id (db (fst (processQueue s))))"
  by (simp add: processQueue_db processLoop_distinct)

lemma castVote_distinct:
  "distinct (map vote_id (db s)) \<Longrightarrow> castVote digest now suffix uuid s = Inr s' \<Longrightarrow>
   distinct (map vote_id (db s'))"
  by (auto simp: castVote_def Let_def table_add_def loadVotes_def keys_def distinct_insort_key
           split: if_splits)

lemma fire_distinct:
  "distinct (map vote_id (db s)) \<Longrightarrow> distinct (map vote_id (db (fst (fire digest e s))))"
  by (cases e) (auto simp: processQueue_distinct toggleOnline_def castVote_distinct split: sum.splits)

lemma run_distinct:
  "distinct (map vote_id (db s)) \<Longrightarrow> distinct (map vote_id (db (fst (run digest es s))))"
  by (induction es arbitrary: s) (simp_all add: split_beta Let_def fire_distinct)

text \<open>
  The table stays in primary-key order, so the model's \<open>toArray\<close> order is the table's.
\<close>

lemma processVote_sorted:
  "sorted (map vote_id (db s)) \<Longrightarrow> sorted (map vote_id (db (fst (processVote v s))))"
  using processVote_ids [of v s] by (auto simp: sorted_wrt_filter)

lemma processLoop_sorted:
  "sorted (map vote_id (db s)) \<Longrightarrow> sorted (map vote_id (db (fst (processLoop q s))))"
  by (induction q arbitrary: s) (simp_all add: split_beta Let_def processVote_sorted)

lemma castVote_sorted:
  "sorted (map vote_id (db s)) \<Longrightarrow> castVote digest now suffix uuid s = Inr s' \<Longrightarrow>
   sorted (map vote_id (db s'))"
  by (auto simp: castVote_def Let_def table_add_def loadVotes_def sorted_insort_key
           split: if_splits)

lemma fire_sorted:
  "sorted (map vote_id (db s)) \<Longrightarrow> sorted (map vote_id (db (fst (fire digest e s))))"
  by (cases e)
     (auto simp: processQueue_db processLoop_sorted toggleOnline_def castVote_sorted
           split: sum.splits)

section \<open>Failed and offline votes\<close>

lemma processQueue_no_queued:
  "table_where Queued (db s) = [] \<Longrightarrow> processQueue s = (loadVotes s, [])"
  by (simp add: processQueue_def)

lemma sweeps_no_queued:
  "table_where Queued (db s) = [] \<Longrightarrow>
   db (fst (run digest (replicate n ProcessQueue) s)) = db s \<and>
   snd (run digest (replicate n ProcessQueue) s) = []"
proof (induction n arbitrary: s)
  case 0
  show ?case by simp
next
  case (Suc n)
  have "table_where Queued (db (loadVotes s)) = []"
    using Suc.prems by (simp add: loadVotes_def)
  from Suc.IH [OF this] show ?case
    using Suc.prems by (simp add: processQueue_no_queued split_beta Let_def loadVotes_def)
qed

text \<open>
  C1. The claim: every sweep selects the votes whose status is Queued or Failed, and a
  Failed vote is attempted again by a later sweep. \<^verbatim>\<open>processQueue\<close> reads
  \<^verbatim>\<open>where('status').equals('queued')\<close> only. Evaluated on a table that holds one
  Failed vote, online and with every draw a success: however many sweeps run, no call of
  \<^verbatim>\<open>sendVote\<close> is made and the vote stays as it is.
\<close>

theorem C1_failed_vote_never_selected:
  "db (fst (run digest (replicate n ProcessQueue)
        (mount True (\<lambda>_. True) [vote_a\<lparr>status := Failed, retries := 1\<rparr>])))
     = [vote_a\<lparr>status := Failed, retries := 1\<rparr>] \<and>
   snd (run digest (replicate n ProcessQueue)
        (mount True (\<lambda>_. True) [vote_a\<lparr>status := Failed, retries := 1\<rparr>])) = []"
proof -
  have "table_where Queued (db (mount True (\<lambda>_. True) [vote_a\<lparr>status := Failed, retries := 1\<rparr>])) = []"
    by (simp add: table_where_def mount_def vote_a_def)
  from sweeps_no_queued [OF this, of digest n] show ?thesis
    by (simp add: mount_def)
qed

text \<open>
  C2. The claim: a vote whose delivery fails once and would succeed the second time is
  removed within two sweeps. Evaluated on a table that holds one Queued vote, online, the
  first draw a failure and every later draw a success: the first sweep marks the vote
  Failed with one retry, and however many sweeps follow, the call log keeps that single
  entry and the vote stays in the table.
\<close>

theorem C2_no_second_attempt:
  "db (fst (run digest (replicate (Suc n) ProcessQueue) (mount True (\<lambda>i. i \<noteq> 0) [vote_a])))
     = [vote_a\<lparr>status := Failed, retries := 1\<rparr>] \<and>
   snd (run digest (replicate (Suc n) ProcessQueue) (mount True (\<lambda>i. i \<noteq> 0) [vote_a]))
     = [(''vote-1-a'', Inl NetworkError)]"
proof -
  let ?s0 = "mount True (\<lambda>i. i \<noteq> 0) [vote_a]"
  have first: "db (fst (processQueue ?s0)) = [vote_a\<lparr>status := Failed, retries := 1\<rparr>]"
    "snd (processQueue ?s0) = [(''vote-1-a'', Inl NetworkError)]"
    by (simp_all add: processQueue_def mount_def vote_a_def table_where_def processVote_def
          sendVote_def table_update_def loadVotes_def plus_one_0)
  have "table_where Queued (db (fst (processQueue ?s0))) = []"
    by (subst first(1)) (simp add: table_where_def)
  from sweeps_no_queued [OF this, of digest n] show ?thesis
    unfolding replicate_Suc run.simps fire.simps by (simp only: split_beta Let_def first append_Nil2 fst_conv snd_conv)
qed

text \<open>
  C3. The claim: a sweep that runs offline leaves a Queued vote Queued. Evaluated on a
  table that holds one Queued vote, offline: \<^verbatim>\<open>sendVote\<close> returns \<^verbatim>\<open>false\<close>
  without drawing, and the vote is left with status Sending, which the sweep wrote before
  the call; going online and sweeping again does not change it.
\<close>

theorem C3_offline_sweep_marks_sending:
  "db (fst (processQueue (mount False rnd [vote_a]))) = [vote_a\<lparr>status := Sending\<rparr>] \<and>
   snd (processQueue (mount False rnd [vote_a])) = [(''vote-1-a'', Inr False)] \<and>
   db (fst (run digest [ProcessQueue, ToggleOnline, ProcessQueue] (mount False (\<lambda>_. True) [vote_a])))
     = [vote_a\<lparr>status := Sending\<rparr>]"
  by (simp add: processQueue_def mount_def vote_a_def table_where_def processVote_def
        sendVote_def table_update_def loadVotes_def toggleOnline_def)

section \<open>Removal\<close>

lemma keys_ids: "keys tbl = set (map vote_id tbl)"
  by (simp add: keys_def)

lemma keys_update:
  "(\<And>r. vote_id (f r) = vote_id r) \<Longrightarrow> keys (table_update k f tbl) = keys tbl"
  by (simp add: keys_ids ids_update)

lemma keys_delete: "keys (table_delete k tbl) = keys tbl - {k}"
  by (auto simp: keys_def table_delete_def)

lemma delivered_append: "delivered (l1 @ l2) = delivered l1 @ delivered l2"
  by (simp add: delivered_def)

lemma delivered_subset: "set (delivered log) \<subseteq> fst ` set log"
  by (auto simp: delivered_def)

lemma processVote_keys:
  "keys (db (fst (processVote v s))) = keys (db s) - set (delivered (snd (processVote v s)))"
  by (simp add: processVote_db processVote_log keys_update keys_delete delivered_def)

lemma processLoop_keys:
  "keys (db (fst (processLoop q s))) = keys (db s) - set (delivered (snd (processLoop q s)))"
proof (induction q arbitrary: s)
  case Nil
  show ?case by (simp add: delivered_def)
next
  case (Cons v q)
  show ?case
    using Cons.IH [of "fst (processVote v s)"] processVote_keys [of v s]
    by (auto simp: split_beta Let_def delivered_append)
qed

lemma processQueue_delivered_keys: "set (delivered (snd (processQueue s))) \<subseteq> keys (db s)"
proof -
  have "set (delivered (snd (processQueue s))) \<subseteq> fst ` set (snd (processQueue s))"
    by (rule delivered_subset)
  also have "\<dots> = vote_id ` set (table_where Queued (db s))"
    by (simp add: processQueue_log processLoop_ids_set)
  also have "\<dots> \<subseteq> keys (db s)"
    by (auto simp: table_where_def keys_def)
  finally show ?thesis .
qed

lemma castVote_keys:
  "castVote digest now suffix uuid s = Inr s' \<Longrightarrow>
   keys (db s') = insert (generateId now suffix) (keys (db s))"
  by (auto simp: castVote_def Let_def table_add_def loadVotes_def keys_def set_insort_key
           split: if_splits)

text \<open>
  C4. A vote leaves the table exactly by a call of \<^verbatim>\<open>sendVote\<close> for it that returned
  \<^verbatim>\<open>true\<close>. For every event (a cast, a toggle, a whole sweep): a key is in the table
  before the event and not after it if and only if the event's call log holds a delivered
  call for that key. For one iteration of the sweep's loop: a key of the table is gone
  after the iteration if and only if the iteration's call was for that key and returned
  \<^verbatim>\<open>true\<close>.
\<close>

theorem C4_removed_iff_delivered:
  "((k \<in> keys (db s) \<and> k \<notin> keys (db (fst (fire digest e s)))) =
      (k \<in> set (delivered (snd (fire digest e s))))) \<and>
   ((k \<in> keys (db s) \<and> k \<notin> keys (db (fst (processVote v s)))) =
      (k \<in> keys (db s) \<and> snd (processVote v s) = [(k, Inr True)]))"
proof
  show "(k \<in> keys (db s) \<and> k \<notin> keys (db (fst (fire digest e s)))) =
        (k \<in> set (delivered (snd (fire digest e s))))"
  proof (cases e)
    case (CastVote now suffix uuid)
    then show ?thesis
      by (auto simp: delivered_def castVote_keys split: sum.splits)
  next
    case ToggleOnline
    then show ?thesis by (simp add: toggleOnline_def delivered_def)
  next
    case ProcessQueue
    have "keys (db (fst (processQueue s))) = keys (db s) - set (delivered (snd (processQueue s)))"
      by (simp add: processQueue_db processQueue_log processLoop_keys)
    then show ?thesis
      using ProcessQueue processQueue_delivered_keys [of s] by auto
  qed
next
  show "(k \<in> keys (db s) \<and> k \<notin> keys (db (fst (processVote v s)))) =
        (k \<in> keys (db s) \<and> snd (processVote v s) = [(k, Inr True)])"
    using processVote_keys [of v s]
    by (auto simp: processVote_log delivered_def split: if_splits)
qed

section \<open>Failure\<close>

lemma processQueue_log_distinct:
  "distinct (map vote_id (db s)) \<Longrightarrow> distinct (map fst (snd (processQueue s)))"
  by (simp add: processQueue_ids snapshot_distinct)

lemma failed_map_of:
  "distinct (map fst log) \<Longrightarrow> k \<in> set (failed log) \<Longrightarrow> map_of log k = Some (Inl NetworkError)"
  by (auto simp: failed_def)

lemma processQueue_failure:
  assumes "distinct (map vote_id (db s))"
    and "table_get k (db s) = Some v"
    and "k \<in> set (failed (snd (processQueue s)))"
  shows "table_get k (db (fst (processQueue s))) =
           Some (v\<lparr>status := Failed, retries := plus_one (retries v)\<rparr>)"
proof -
  have "map_of (snd (processQueue s)) k = Some (Inl NetworkError)"
    using assms(1,3) by (simp add: failed_map_of processQueue_log_distinct)
  then show ?thesis
    using processQueue_get [OF assms(1), of k] assms(2) by (simp add: effect_def)
qed

section \<open>The retry count\<close>

lemma table_get_keys: "table_get k tbl = Some r \<Longrightarrow> k \<in> keys tbl"
  by (simp add: keys_get)

lemma castVote_get:
  "castVote digest now suffix uuid s = Inr s' \<Longrightarrow> table_get k (db s) = Some r \<Longrightarrow>
   table_get k (db s') = Some r"
  by (auto simp: castVote_def Let_def table_add_def loadVotes_def table_get_insort
           dest: table_get_keys split: if_splits)

lemma fire_retries_mono:
  assumes "distinct (map vote_id (db s))"
    and "table_get k (db s) = Some r"
    and "table_get k (db (fst (fire digest e s))) = Some r'"
  shows "retries r \<le> retries r'"
proof (cases e)
  case (CastVote now suffix uuid)
  then show ?thesis
    using assms(2,3) by (auto split: sum.splits dest: castVote_get)
next
  case ToggleOnline
  then show ?thesis using assms(2,3) by (simp add: toggleOnline_def)
next
  case ProcessQueue
  then show ?thesis
    using processQueue_get [OF assms(1), of k] assms(2,3)
    by (auto simp: effect_def plus_one_ge split: option.splits sum.splits bool.splits)
qed

text \<open>
  C7. In a table with unique keys, along every run of casts, toggles and sweeps during
  which the key \<open>k\<close> stays in the table, the retry count stored under \<open>k\<close> at the end is
  at least the one stored at the start.
\<close>

theorem C7_retries_never_decrease:
  assumes "distinct (map vote_id (db s))"
    and "list_all (\<lambda>t. k \<in> keys (db t)) (states digest es s)"
    and "table_get k (db s) = Some r"
    and "table_get k (db (last (states digest es s))) = Some r'"
  shows "retries r \<le> retries r'"
  using assms
proof (induction es arbitrary: s r)
  case Nil
  then show ?case by simp
next
  case (Cons e es)
  let ?s1 = "fst (fire digest e s)"
  have d1: "distinct (map vote_id (db ?s1))"
    using Cons.prems(1) by (rule fire_distinct)
  have all1: "list_all (\<lambda>t. k \<in> keys (db t)) (states digest es ?s1)"
    using Cons.prems(2) by simp
  have "k \<in> keys (db ?s1)"
    using all1 by (cases es) simp_all
  then obtain r1 where r1: "table_get k (db ?s1) = Some r1"
    by (auto simp: keys_get)
  have last1: "table_get k (db (last (states digest es ?s1))) = Some r'"
    using Cons.prems(4) by (cases es) simp_all
  have "retries r \<le> retries r1"
    using fire_retries_mono [OF Cons.prems(1,3) r1] .
  also have "retries r1 \<le> retries r'"
    using Cons.IH [OF d1 all1 r1 last1] .
  finally show ?case .
qed

theorem C7_retries_never_decrease_witness:
  "distinct (map vote_id (db (mount True (\<lambda>i. i \<noteq> 0) [vote_a]))) \<and>
   list_all (\<lambda>t. ''vote-1-a'' \<in> keys (db t))
     (states digest0 [ProcessQueue, ToggleOnline, CastVote 3 ''c'' ''key-c'', ProcessQueue]
        (mount True (\<lambda>i. i \<noteq> 0) [vote_a])) \<and>
   table_get ''vote-1-a'' (db (mount True (\<lambda>i. i \<noteq> 0) [vote_a])) = Some vote_a \<and>
   table_get ''vote-1-a''
     (db (last (states digest0 [ProcessQueue, ToggleOnline, CastVote 3 ''c'' ''key-c'', ProcessQueue]
        (mount True (\<lambda>i. i \<noteq> 0) [vote_a])))) = Some (vote_a\<lparr>status := Failed, retries := 1\<rparr>) \<and>
   retries vote_a \<le> retries (vote_a\<lparr>status := Failed, retries := 1\<rparr>)"
proof -
  let ?s = "mount True (\<lambda>i. i \<noteq> 0) [vote_a]"
  let ?es = "[ProcessQueue, ToggleOnline, CastVote 3 ''c'' ''key-c'', ProcessQueue]"
  have h1: "distinct (map vote_id (db ?s))" by code_simp
  have h2: "list_all (\<lambda>t. ''vote-1-a'' \<in> keys (db t)) (states digest0 ?es ?s)" by code_simp
  have h3: "table_get ''vote-1-a'' (db ?s) = Some vote_a" by code_simp
  have h4: "table_get ''vote-1-a'' (db (last (states digest0 ?es ?s))) =
              Some (vote_a\<lparr>status := Failed, retries := 1\<rparr>)" by code_simp
  from C7_retries_never_decrease [OF h1 h2 h3 h4] h1 h2 h3 h4 show ?thesis by blast
qed

section \<open>A failed attempt among overlapping sweeps\<close>

lemma advance_processVote:
  assumes "advance s (v # q, Claim) = (s1, w1, l1)"
    and "advance s1 w1 = (s2, w2, l2)"
    and "advance s2 w2 = (s3, w3, l3)"
  shows "if isOnline s then (s3, l1 @ l2 @ l3) = processVote v s \<and> w3 = (q, Claim)
         else (s2, l1 @ l2) = processVote v s \<and> w2 = (q, Claim)"
  using assms
  by (auto simp: processVote_def sendVote_def Let_def split: if_splits)

text \<open>
  A sweep that the timer starts and that runs to its end with nothing in between is
  \<open>processQueue\<close>.
\<close>

lemma play_append:
  "play digest (as @ bs) c =
     (let (c1, l1) = play digest as c; (c2, l2) = play digest bs c1 in (c2, l1 @ l2))"
  by (induction as arbitrary: c) (simp_all add: split_beta Let_def)

lemma play_one_vote:
  assumes "i < length ws" and "ws ! i = (v # q, Claim)"
  shows "play digest (replicate (if isOnline s then 3 else 2) (Resume i)) (s, ws) =
           ((fst (processVote v s), ws[i := (q, Claim)]), snd (processVote v s))"
proof (cases "isOnline s")
  case True
  have "replicate (if isOnline s then 3 else 2) (Resume i) = [Resume i, Resume i, Resume i]"
    using True by (simp add: numeral_3_eq_3)
  then show ?thesis
    using assms True
    by (simp add: processVote_def sendVote_def Let_def)
next
  case False
  have "replicate (if isOnline s then 3 else 2) (Resume i) = [Resume i, Resume i]"
    using False by (simp add: numeral_2_eq_2)
  then show ?thesis
    using assms False
    by (simp add: processVote_def sendVote_def Let_def)
qed

lemma play_alone_is_processLoop:
  "i < length ws \<Longrightarrow> ws ! i = (q, Claim) \<Longrightarrow>
   \<exists>n. play digest (replicate n (Resume i)) (s, ws) =
         ((loadVotes (fst (processLoop q s)), ws[i := ([], Done)]), snd (processLoop q s))"
proof (induction q arbitrary: s ws)
  case Nil
  have "play digest (replicate 1 (Resume i)) (s, ws) =
          ((loadVotes (fst (processLoop [] s)), ws[i := ([], Done)]), snd (processLoop [] s))"
    using Nil by simp
  then show ?case by blast
next
  case (Cons v q)
  let ?k = "if isOnline s then 3 else 2 :: nat"
  let ?s1 = "fst (processVote v s)"
  let ?ws1 = "ws[i := (q, Claim)]"
  have one: "play digest (replicate ?k (Resume i)) (s, ws) = ((?s1, ?ws1), snd (processVote v s))"
    using Cons.prems by (rule play_one_vote)
  have "i < length ?ws1" "?ws1 ! i = (q, Claim)"
    using Cons.prems(1) by simp_all
  from Cons.IH [OF this, of ?s1] obtain m where
    rest: "play digest (replicate m (Resume i)) (?s1, ?ws1) =
             ((loadVotes (fst (processLoop q ?s1)), ?ws1[i := ([], Done)]),
              snd (processLoop q ?s1))"
    by blast
  have "play digest (replicate (?k + m) (Resume i)) (s, ws) =
          ((loadVotes (fst (processLoop (v # q) s)), ws[i := ([], Done)]),
           snd (processLoop (v # q) s))"
    using one rest by (simp add: replicate_add play_append split_beta Let_def)
  then show ?case by blast
qed

lemma play_alone_is_processQueue:
  "\<exists>n. play digest (Timer # replicate n (Resume (length ws))) (s, ws) =
         ((fst (processQueue s), ws @ [([], Done)]), snd (processQueue s))"
proof -
  let ?ws = "ws @ [(table_where Queued (db s), Claim)]"
  have "length ws < length ?ws" "?ws ! length ws = (table_where Queued (db s), Claim)"
    by simp_all
  from play_alone_is_processLoop [OF this, of digest s] obtain n where
    "play digest (replicate n (Resume (length ws))) (s, ?ws) =
       ((loadVotes (fst (processLoop (table_where Queued (db s)) s)), ?ws[length ws := ([], Done)]),
        snd (processLoop (table_where Queued (db s)) s))"
    by blast
  then have "play digest (Timer # replicate n (Resume (length ws))) (s, ws) =
         ((fst (processQueue s), ws @ [([], Done)]), snd (processQueue s))"
    by (simp add: processQueue_def split_beta Let_def)
  then show ?thesis by blast
qed

lemma advance_suffix:
  "advance s w = (s', w', l) \<Longrightarrow> \<exists>pre. fst w = pre @ fst w'"
  by (induction s w rule: advance.induct) (auto simp: Let_def split: if_splits)

lemma act_suffix:
  assumes "i < length ws" and "act digest a (s, ws) = ((s', ws'), l)"
  shows "i < length ws' \<and> (\<exists>pre. fst (ws ! i) = pre @ fst (ws' ! i))"
proof (cases a)
  case Timer
  then show ?thesis using assms by (auto simp: nth_append)
next
  case (Resume j)
  show ?thesis
  proof (cases "j < length ws")
    case True
    obtain s1 w1 l1 where adv: "advance s (ws ! j) = (s1, w1, l1)"
      by (cases "advance s (ws ! j)") auto
    have ws': "ws' = ws[j := w1]"
      using assms(2) Resume True adv by simp
    show ?thesis
    proof (cases "j = i")
      case True
      then show ?thesis using assms(1) ws' advance_suffix [OF adv] by simp
    next
      case False
      then show ?thesis using assms(1) ws' by simp
    qed
  next
    case False
    then show ?thesis using assms Resume by simp
  qed
next
  case (Press b)
  then show ?thesis using assms by simp
qed

lemma play_suffix:
  "i < length ws \<Longrightarrow> play digest acts (s, ws) = ((s', ws'), l) \<Longrightarrow>
   i < length ws' \<and> (\<exists>pre. fst (ws ! i) = pre @ fst (ws' ! i))"
proof (induction acts arbitrary: s ws l)
  case Nil
  then show ?case by simp
next
  case (Cons a acts)
  obtain s1 ws1 l1 where a: "act digest a (s, ws) = ((s1, ws1), l1)"
    by (cases "act digest a (s, ws)") auto
  obtain l2 where rest: "play digest acts (s1, ws1) = ((s', ws'), l2)"
    using Cons.prems(2) a by (simp add: split_beta Let_def) (metis prod.collapse)
  have 1: "i < length ws1" "\<exists>pre. fst (ws ! i) = pre @ fst (ws1 ! i)"
    using act_suffix [OF Cons.prems(1) a] by simp_all
  have 2: "i < length ws'" "\<exists>pre. fst (ws1 ! i) = pre @ fst (ws' ! i)"
    using Cons.IH [OF 1(1) rest] by simp_all
  show ?case using 1(2) 2 by (metis append.assoc)
qed

lemma list_all_get_update:
  "(\<And>r. vote_id (f r) = vote_id r) \<Longrightarrow> k \<notin> vote_id ` set q \<Longrightarrow>
   list_all (\<lambda>u. table_get (vote_id u) (table_update k f tbl) = Some u) q =
   list_all (\<lambda>u. table_get (vote_id u) tbl = Some u) q"
  by (induction q) (auto simp: table_get_update)

lemma list_all_get_delete:
  "k \<notin> vote_id ` set q \<Longrightarrow>
   list_all (\<lambda>u. table_get (vote_id u) (table_delete k tbl) = Some u) q =
   list_all (\<lambda>u. table_get (vote_id u) tbl = Some u) q"
  by (induction q) (auto simp: table_get_delete)

lemma held_advance:
  assumes h: "held s w" and a: "advance s w = (s', w', l)"
  shows "held s' w'"
proof -
  obtain todo p where w: "w = (todo, p)"
    by (cases w)
  show ?thesis
  proof (cases todo)
    case Nil
    then show ?thesis
      using h a w by (cases p) auto
  next
    case (Cons vote queued)
    have fresh: "vote_id vote \<notin> vote_id ` set queued" if "p \<noteq> Done"
      using h w Cons that by (cases p) simp_all
    show ?thesis
    proof (cases p)
      case Claim
      let ?f = "\<lambda>r. r\<lparr>status := Sending\<rparr>"
      have s': "db s' = table_update (vote_id vote) ?f (db s)"
        and w': "w' = (vote # queued, Call)"
        using a w Cons Claim by auto
      have hs: "distinct (map vote_id (vote # queued))"
        "table_get (vote_id vote) (db s) = Some vote"
        "list_all (\<lambda>u. table_get (vote_id u) (db s) = Some u) queued"
        using h w Cons Claim by simp_all
      have f: "vote_id vote \<notin> vote_id ` set queued"
        using fresh Claim by simp
      have "list_all (\<lambda>u. table_get (vote_id u) (db s') = Some u) queued"
        unfolding s' using hs(3) by (subst list_all_get_update [OF _ f]) simp_all
      moreover have "table_get (vote_id vote) (db s') = Some (vote\<lparr>status := Sending\<rparr>)"
        unfolding s' using hs(2) by (simp add: table_get_update)
      ultimately show ?thesis
        using hs(1) w' by simp
    next
      case Call
      then show ?thesis
        using h a w Cons by (auto split: if_splits)
    next
      case Wait
      have hs: "distinct (map vote_id (vote # queued))"
        "list_all (\<lambda>u. table_get (vote_id u) (db s) = Some u) queued"
        using h w Cons Wait by simp_all
      have f: "vote_id vote \<notin> vote_id ` set queued"
        using fresh Wait by simp
      have w': "w' = (queued, Claim)"
        using a w Cons Wait by (auto simp: Let_def split: if_splits)
      have "db s' = table_delete (vote_id vote) (db s) \<or>
            db s' = table_update (vote_id vote)
                      (\<lambda>r. r\<lparr>status := Failed, retries := plus_one (retries vote)\<rparr>) (db s)"
        using a w Cons Wait by (auto simp: Let_def split: if_splits)
      then have "list_all (\<lambda>u. table_get (vote_id u) (db s') = Some u) queued"
      proof
        assume "db s' = table_delete (vote_id vote) (db s)"
        then show ?thesis
          using hs(2) by (simp only: list_all_get_delete [OF f])
      next
        assume d: "db s' = table_update (vote_id vote)
                      (\<lambda>r. r\<lparr>status := Failed, retries := plus_one (retries vote)\<rparr>) (db s)"
        show ?thesis
          unfolding d using hs(2) by (subst list_all_get_update [OF _ f]) simp_all
      qed
      then show ?thesis
        using hs(1) w' by simp
    next
      case Done
      then show ?thesis
        using a w by auto
    qed
  qed
qed

lemma held_mono:
  assumes "\<And>k x. table_get k (db s) = Some x \<Longrightarrow> table_get k (db s') = Some x"
    and "held s w"
  shows "held s' w"
proof -
  have all: "list_all (\<lambda>u. table_get (vote_id u) (db s) = Some u) q \<Longrightarrow>
             list_all (\<lambda>u. table_get (vote_id u) (db s') = Some u) q" for q
    using assms(1) by (induction q) auto
  show ?thesis
    using assms(2) all assms(1)
    by (induction s w rule: held.induct) auto
qed

lemma held_press: "held s w \<Longrightarrow> held (press digest b s) w"
proof (cases b)
  case (Cast now suffix uuid)
  assume h: "held s w"
  show ?thesis
  proof (cases "castVote digest now suffix uuid s")
    case (Inl e)
    then show ?thesis using Cast h by simp
  next
    case (Inr s1)
    have "held s1 w"
      using h by (rule held_mono [rotated]) (rule castVote_get [OF Inr])
    then show ?thesis using Cast Inr by simp
  qed
next
  case Toggle
  assume "held s w"
  then show ?thesis
    using Toggle by (auto intro: held_mono [rotated] simp: toggleOnline_def)
qed

lemma act_alone:
  assumes "i < length ws" and "held s (ws ! i)"
    and "\<And>j. a = Resume j \<Longrightarrow> j = i"
    and "act digest a (s, ws) = ((s', ws'), l)"
  shows "i < length ws' \<and> held s' (ws' ! i)"
proof (cases a)
  case Timer
  then show ?thesis using assms by (auto simp: nth_append)
next
  case (Resume j)
  then have j: "j = i" using assms(3) by simp
  obtain s1 w1 l1 where adv: "advance s (ws ! i) = (s1, w1, l1)"
    by (cases "advance s (ws ! i)") auto
  have "s' = s1" "ws' = ws[i := w1]"
    using assms(1,4) Resume j adv by simp_all
  then show ?thesis
    using assms(1) held_advance [OF assms(2) adv] by simp
next
  case (Press b)
  then show ?thesis using assms by (auto simp: held_press)
qed

lemma play_alone:
  "i < length ws \<Longrightarrow> held s (ws ! i) \<Longrightarrow> (\<forall>j. Resume j \<in> set acts \<longrightarrow> j = i) \<Longrightarrow>
   play digest acts (s, ws) = ((s', ws'), l) \<Longrightarrow>
   i < length ws' \<and> held s' (ws' ! i)"
proof (induction acts arbitrary: s ws l)
  case Nil
  then show ?case by simp
next
  case (Cons a acts)
  obtain s1 ws1 l1 where a: "act digest a (s, ws) = ((s1, ws1), l1)"
    by (cases "act digest a (s, ws)") auto
  obtain l2 where rest: "play digest acts (s1, ws1) = ((s', ws'), l2)"
    using Cons.prems(4) a by (simp add: split_beta Let_def) (metis prod.collapse)
  have 1: "i < length ws1 \<and> held s1 (ws1 ! i)"
    using Cons.prems(3) by (intro act_alone [OF Cons.prems(1,2) _ a]) simp
  have 2: "\<forall>j. Resume j \<in> set acts \<longrightarrow> j = i"
    using Cons.prems(3) by simp
  show ?case
    using Cons.IH [OF conjunct1 [OF 1] conjunct2 [OF 1] 2 rest] .
qed

lemma held_snapshot:
  "distinct (map vote_id (db s)) \<Longrightarrow> held s (table_where Queued (db s), Claim)"
  by (auto simp: snapshot_distinct list_all_iff snapshot_get)

text \<open>
  C5. The claim: an attempt that fails leaves the vote in the table, Failed, with exactly
  one more retry than when the sweep selected it. What the code does: let the table have
  unique keys when a sweep takes its snapshot, and let that sweep, after any actions of
  the timer, of the buttons and of all the sweeps that are running, be in the wait of
  \<^verbatim>\<open>sendVote\<close> for the vote \<open>v\<close> when the draw fails. Then the call ends with the
  network error; \<open>v\<close> is the vote that was stored under its key when the sweep took its
  snapshot; the write of the \<^verbatim>\<open>catch\<close> block adds and removes no key; the vote stored
  under the key of \<open>v\<close>, if one still is, gets the status Failed and as its retries those
  of \<open>v\<close> plus one in double arithmetic, and keeps its other fields; if no other sweep
  has gone on since the snapshot, the vote is stored in this form after the write; and
  below \<open>2^53\<close> the addition is exactly one more.
\<close>

theorem C5_failure_write:
  assumes "distinct (map vote_id (db s0))"
    and "fst (play digest acts (s0, ws0 @ [(table_where Queued (db s0), Claim)])) = (s, ws)"
    and "ws ! length ws0 = (v # q, Wait)"
    and "\<not> rand s 0"
    and "act digest (Resume (length ws0)) (s, ws) = ((s', ws'), l)"
  shows "l = [(vote_id v, Inl NetworkError)] \<and>
         table_get (vote_id v) (db s0) = Some v \<and>
         keys (db s') = keys (db s) \<and>
         table_get (vote_id v) (db s') =
           map_option (\<lambda>r. r\<lparr>status := Failed, retries := plus_one (retries v)\<rparr>)
             (table_get (vote_id v) (db s)) \<and>
         ((\<forall>j. Resume j \<in> set acts \<longrightarrow> j = length ws0) \<longrightarrow>
            table_get (vote_id v) (db s') =
              Some (v\<lparr>status := Failed, retries := plus_one (retries v)\<rparr>)) \<and>
         (retries v < 2 ^ 53 \<longrightarrow> plus_one (retries v) = retries v + 1)"
proof -
  let ?i = "length ws0"
  let ?c0 = "(s0, ws0 @ [(table_where Queued (db s0), Claim)])"
  obtain l0 where run: "play digest acts ?c0 = ((s, ws), l0)"
    using assms(2) by (metis prod.collapse)
  have i0: "?i < length (ws0 @ [(table_where Queued (db s0), Claim)])"
    by simp
  have at0: "(ws0 @ [(table_where Queued (db s0), Claim)]) ! ?i = (table_where Queued (db s0), Claim)"
    by simp
  have i: "?i < length ws"
    using play_suffix [OF i0 run] by simp
  obtain pre where "table_where Queued (db s0) = pre @ (v # q)"
    using play_suffix [OF i0 run] assms(3) at0 by auto
  then have "v \<in> set (table_where Queued (db s0))"
    by simp
  then have sel: "table_get (vote_id v) (db s0) = Some v"
    using assms(1) by (rule snapshot_get [rotated])
  have step: "s' = s\<lparr>rand := (\<lambda>n. rand s (Suc n)),
                      db := table_update (vote_id v)
                        (\<lambda>r. r\<lparr>status := Failed, retries := plus_one (retries v)\<rparr>) (db s)\<rparr>"
    "l = [(vote_id v, Inl NetworkError)]"
    using assms(3,4,5) i by (simp_all add: Let_def)
  have k: "keys (db s') = keys (db s)"
    by (simp add: step(1) keys_update)
  have g: "table_get (vote_id v) (db s') =
           map_option (\<lambda>r. r\<lparr>status := Failed, retries := plus_one (retries v)\<rparr>)
             (table_get (vote_id v) (db s))"
    by (simp add: step(1) table_get_update)
  have alone: "table_get (vote_id v) (db s') =
              Some (v\<lparr>status := Failed, retries := plus_one (retries v)\<rparr>)"
    if "\<forall>j. Resume j \<in> set acts \<longrightarrow> j = ?i"
  proof -
    have "held s0 ((ws0 @ [(table_where Queued (db s0), Claim)]) ! ?i)"
      unfolding at0 using assms(1) by (rule held_snapshot)
    then have "held s (ws ! ?i)"
      using play_alone [OF i0 _ that run] by simp
    then have "table_get (vote_id v) (db s) = Some (v\<lparr>status := Sending\<rparr>)"
      using assms(3) by simp
    then show ?thesis using g by simp
  qed
  show ?thesis
    using step(2) sel k g alone by (simp add: plus_one_exact)
qed

theorem C5_failure_write_witness:
  "distinct (map vote_id (db (mount True (\<lambda>i. i \<noteq> 0) [vote_a, vote_b]))) \<and>
   snd (fst (play digest0 [Resume 0, Resume 0]
      (mount True (\<lambda>i. i \<noteq> 0) [vote_a, vote_b],
       [(table_where Queued (db (mount True (\<lambda>i. i \<noteq> 0) [vote_a, vote_b])), Claim)]))) ! 0
     = ([vote_a, vote_b], Wait) \<and>
   \<not> rand (fst (fst (play digest0 [Resume 0, Resume 0]
      (mount True (\<lambda>i. i \<noteq> 0) [vote_a, vote_b],
       [(table_where Queued (db (mount True (\<lambda>i. i \<noteq> 0) [vote_a, vote_b])), Claim)])))) 0 \<and>
   snd (act digest0 (Resume 0) (fst (play digest0 [Resume 0, Resume 0]
      (mount True (\<lambda>i. i \<noteq> 0) [vote_a, vote_b],
       [(table_where Queued (db (mount True (\<lambda>i. i \<noteq> 0) [vote_a, vote_b])), Claim)]))))
     = [(''vote-1-a'', Inl NetworkError)] \<and>
   table_get ''vote-1-a'' (db (fst (fst (act digest0 (Resume 0) (fst (play digest0 [Resume 0, Resume 0]
      (mount True (\<lambda>i. i \<noteq> 0) [vote_a, vote_b],
       [(table_where Queued (db (mount True (\<lambda>i. i \<noteq> 0) [vote_a, vote_b])), Claim)])))))))
     = Some (vote_a\<lparr>status := Failed, retries := 1\<rparr>)"
proof -
  let ?s0 = "mount True (\<lambda>i. i \<noteq> 0) [vote_a, vote_b]"
  let ?c = "fst (play digest0 [Resume 0, Resume 0] (?s0, [] @ [(table_where Queued (db ?s0), Claim)]))"
  let ?r = "act digest0 (Resume (length ([] :: sweep list))) (fst ?c, snd ?c)"
  have h1: "distinct (map vote_id (db ?s0))" by code_simp
  have h2: "?c = (fst ?c, snd ?c)" by simp
  have h3: "snd ?c ! length ([] :: sweep list) = (vote_a # [vote_b], Wait)" by code_simp
  have h4: "\<not> rand (fst ?c) 0" by code_simp
  have h5: "?r = ((fst (fst ?r), snd (fst ?r)), snd ?r)" by simp
  have e: "vote_id vote_a = ''vote-1-a''" "plus_one (retries vote_a) = 1"
    by (simp_all add: vote_a_def plus_one_0)
  have alone: "\<forall>j. Resume j \<in> set [Resume 0, Resume 0] \<longrightarrow> j = length ([] :: sweep list)"
    by simp
  from C5_failure_write [OF h1 h2 h3 h4 h5] alone
  have "snd ?r = [(vote_id vote_a, Inl NetworkError)]"
    and "table_get (vote_id vote_a) (db (fst (fst ?r))) =
           Some (vote_a\<lparr>status := Failed, retries := plus_one (retries vote_a)\<rparr>)"
    by blast+
  then show ?thesis
    using h1 h3 h4 by (simp add: e)
qed

text \<open>
  The claim as stated fails in two ways. Seven votes are queued and every draw but the
  last succeeds: the first sweep is still waiting for its sixth vote when the timer starts
  a second sweep, both sweeps then send the seventh vote, the second sweep's call returns
  \<^verbatim>\<open>true\<close> and deletes it, and the first sweep's call throws, whose write finds nothing
  under the key: the attempt failed and the vote is not in the table. And a queued vote
  whose retries are \<open>2^53\<close> is marked Failed with the same retries, not with one more.
\<close>

theorem C5_failure_write_counterexample:
  "snd (play digest0
     (Timer # replicate 17 (Resume 0) @
      [Timer, Resume 0, Resume 1, Resume 0, Resume 1, Resume 0, Resume 1, Resume 0])
     (mount True (\<lambda>i. i \<noteq> 7) ballots, []))
     = [(''vote-1-x'', Inr True), (''vote-2-x'', Inr True), (''vote-3-x'', Inr True),
        (''vote-4-x'', Inr True), (''vote-5-x'', Inr True), (''vote-6-x'', Inr True),
        (''vote-7-x'', Inr True), (''vote-7-x'', Inl NetworkError)] \<and>
   db (fst (fst (play digest0
     (Timer # replicate 17 (Resume 0) @
      [Timer, Resume 0, Resume 1, Resume 0, Resume 1, Resume 0, Resume 1, Resume 0])
     (mount True (\<lambda>i. i \<noteq> 7) ballots, [])))) = [] \<and>
   snd (processQueue (mount True (\<lambda>i. False) [vote_a\<lparr>retries := 2 ^ 53\<rparr>]))
     = [(''vote-1-a'', Inl NetworkError)] \<and>
   db (fst (processQueue (mount True (\<lambda>i. False) [vote_a\<lparr>retries := 2 ^ 53\<rparr>])))
     = [vote_a\<lparr>status := Failed, retries := 2 ^ 53\<rparr>]"
proof -
  have a: "snd (play digest0
     (Timer # replicate 17 (Resume 0) @
      [Timer, Resume 0, Resume 1, Resume 0, Resume 1, Resume 0, Resume 1, Resume 0])
     (mount True (\<lambda>i. i \<noteq> 7) ballots, []))
     = [(''vote-1-x'', Inr True), (''vote-2-x'', Inr True), (''vote-3-x'', Inr True),
        (''vote-4-x'', Inr True), (''vote-5-x'', Inr True), (''vote-6-x'', Inr True),
        (''vote-7-x'', Inr True), (''vote-7-x'', Inl NetworkError)]"
    by code_simp
  have b: "db (fst (fst (play digest0
     (Timer # replicate 17 (Resume 0) @
      [Timer, Resume 0, Resume 1, Resume 0, Resume 1, Resume 0, Resume 1, Resume 0])
     (mount True (\<lambda>i. i \<noteq> 7) ballots, [])))) = []"
    by code_simp
  have c: "snd (processQueue (mount True (\<lambda>i. False) [vote_a\<lparr>retries := 2 ^ 53\<rparr>]))
     = [(''vote-1-a'', Inl NetworkError)]"
    "db (fst (processQueue (mount True (\<lambda>i. False) [vote_a\<lparr>retries := 2 ^ 53\<rparr>])))
     = [vote_a\<lparr>status := Failed, retries := 2 ^ 53\<rparr>]"
    by (simp_all add: processQueue_def mount_def vote_a_def table_where_def processVote_def
          sendVote_def table_update_def loadVotes_def plus_one_def)
  show ?thesis using a b c by simp
qed

section \<open>Casting\<close>

text \<open>
  C8. The claim: every call of \<^verbatim>\<open>castVote\<close> creates one new vote. What the code does:
  a call of \<^verbatim>\<open>castVote\<close> whose generated identifier is not yet a key of the table
  succeeds and adds exactly one vote, whose status is Queued, whose retries are 0 and
  whose signature is \<^verbatim>\<open>signVote\<close> of the identifier followed by the idempotency key.
\<close>

theorem C8_cast_creates_queued_vote:
  assumes "generateId now suffix \<notin> keys (db s)"
  shows "\<exists>s'. castVote digest now suffix uuid s = Inr s' \<and>
           set (db s') =
             insert \<lparr>vote_id = generateId now suffix, idempotencyKey = uuid, status = Queued,
                     retries = 0,
                     signature = signVote digest (generateId now suffix @ uuid)\<rparr> (set (db s)) \<and>
           \<lparr>vote_id = generateId now suffix, idempotencyKey = uuid, status = Queued,
             retries = 0,
             signature = signVote digest (generateId now suffix @ uuid)\<rparr> \<notin> set (db s) \<and>
           length (db s') = Suc (length (db s))"
proof -
  let ?new = "\<lparr>vote_id = generateId now suffix, idempotencyKey = uuid, status = Queued,
               retries = 0,
               signature = signVote digest (generateId now suffix @ uuid)\<rparr>"
  have "vote_id ?new \<notin> keys (db s)"
    using assms by simp
  then have fresh: "?new \<notin> set (db s)"
    unfolding keys_def by blast
  have "castVote digest now suffix uuid s =
          Inr (loadVotes (s\<lparr>db := insort_key vote_id ?new (db s)\<rparr>))"
    using assms by (simp add: castVote_def Let_def table_add_def)
  then show ?thesis
    using fresh by (simp add: loadVotes_def set_insort_key)
qed

theorem C8_cast_creates_queued_vote_witness:
  "generateId 3 ''c'' \<notin> keys (db (mount True (\<lambda>_. True) [vote_a])) \<and>
   (\<exists>s'. castVote digest0 3 ''c'' ''key-c'' (mount True (\<lambda>_. True) [vote_a]) = Inr s' \<and>
           set (db s') =
             insert \<lparr>vote_id = generateId 3 ''c'', idempotencyKey = ''key-c'', status = Queued,
                     retries = 0,
                     signature = signVote digest0 (generateId 3 ''c'' @ ''key-c'')\<rparr>
               (set (db (mount True (\<lambda>_. True) [vote_a]))) \<and>
           \<lparr>vote_id = generateId 3 ''c'', idempotencyKey = ''key-c'', status = Queued,
             retries = 0,
             signature = signVote digest0 (generateId 3 ''c'' @ ''key-c'')\<rparr>
             \<notin> set (db (mount True (\<lambda>_. True) [vote_a])) \<and>
           length (db s') = Suc (length (db (mount True (\<lambda>_. True) [vote_a])))) \<and>
   generateId 3 ''c'' = ''vote-3-c'' \<and>
   signVote digest0 (generateId 3 ''c'' @ ''key-c'') = ''0dab''"
proof -
  let ?s = "mount True (\<lambda>_. True) [vote_a]"
  have h: "generateId 3 ''c'' \<notin> keys (db ?s)" by code_simp
  have e1: "generateId 3 ''c'' = ''vote-3-c''" by code_simp
  have e2: "signVote digest0 (generateId 3 ''c'' @ ''key-c'') = ''0dab''" by code_simp
  from C8_cast_creates_queued_vote [OF h, of digest0 "''key-c''"] h e1 e2 show ?thesis by blast
qed

text \<open>
  When the generated identifier is already a key, \<^verbatim>\<open>add\<close> rejects and no vote is
  created: the claim as stated fails for a call that generates the identifier of a
  stored vote.
\<close>

lemma castVote_collision:
  "generateId now suffix \<in> keys (db s) \<Longrightarrow>
   castVote digest now suffix uuid s = Inl ConstraintError"
  by (simp add: castVote_def Let_def table_add_def)

theorem C8_cast_counterexample:
  "generateId 1 ''a'' = vote_id vote_a \<and>
   castVote digest0 1 ''a'' ''key-z'' (mount True (\<lambda>i. True) [vote_a]) = Inl ConstraintError"
proof -
  have k: "generateId 1 ''a'' \<in> keys (db (mount True (\<lambda>i. True) [vote_a]))"
    by code_simp
  have "generateId 1 ''a'' = vote_id vote_a"
    by code_simp
  then show ?thesis
    using castVote_collision [OF k, of digest0 "''key-z''"] by simp
qed

section \<open>Votes that are no longer Queued\<close>

lemma fire_not_queued:
  assumes "distinct (map vote_id (db s))"
    and "table_get k (db s) = Some w"
    and "status w \<noteq> Queued"
  shows "table_get k (db (fst (fire digest e s))) = Some w \<and>
         k \<notin> fst ` set (snd (fire digest e s))"
proof (cases e)
  case (CastVote now suffix uuid)
  then show ?thesis
    using assms(2) by (auto split: sum.splits dest: castVote_get)
next
  case ToggleOnline
  then show ?thesis using assms(2) by (simp add: toggleOnline_def)
next
  case ProcessQueue
  have notin: "k \<notin> vote_id ` set (table_where Queued (db s))"
  proof
    assume "k \<in> vote_id ` set (table_where Queued (db s))"
    then obtain u where u: "u \<in> set (table_where Queued (db s))" "vote_id u = k"
      by auto
    then have "table_get k (db s) = Some u"
      using snapshot_get [OF assms(1), of u Queued] by simp
    then have "u = w" using assms(2) by simp
    moreover have "status u = Queued" using u(1) by (simp add: table_where_def)
    ultimately show False using assms(3) by simp
  qed
  then have k: "k \<notin> fst ` set (snd (processQueue s))"
    by (simp add: processQueue_log processLoop_ids_set)
  then have "map_of (snd (processQueue s)) k = None"
    by (simp add: map_of_eq_None_iff)
  then show ?thesis
    using ProcessQueue k processQueue_get [OF assms(1), of k] assms(2)
    by (simp add: effect_def)
qed

lemma run_not_queued:
  "distinct (map vote_id (db s)) \<Longrightarrow> table_get k (db s) = Some w \<Longrightarrow> status w \<noteq> Queued \<Longrightarrow>
   table_get k (db (fst (run digest es s))) = Some w \<and>
   k \<notin> fst ` set (snd (run digest es s))"
proof (induction es arbitrary: s)
  case Nil
  then show ?case by simp
next
  case (Cons e es)
  let ?s1 = "fst (fire digest e s)"
  have step: "table_get k (db ?s1) = Some w" "k \<notin> fst ` set (snd (fire digest e s))"
    using fire_not_queued [OF Cons.prems, of digest e] by simp_all
  have d1: "distinct (map vote_id (db ?s1))"
    using Cons.prems(1) by (rule fire_distinct)
  show ?case
    using Cons.IH [OF d1 step(1) Cons.prems(3)] step(2)
    by (simp add: split_beta Let_def image_Un)
qed

lemma processLoop_offline:
  "\<not> isOnline s \<Longrightarrow> snd (processLoop q s) = map (\<lambda>u. (vote_id u, Inr False)) q"
  by (induction q arbitrary: s)
     (simp_all add: split_beta Let_def processVote_log processVote_isOnline)

lemma map_of_const:
  "map_of (map (\<lambda>u. (f u, c)) q) k = (if k \<in> f ` set q then Some c else None)"
  by (induction q) auto

text \<open>
  C9. In a table with unique keys, a sweep that runs offline leaves every vote that was
  Queued in the table with status Sending and all other fields, the retry count among
  them, unchanged; and in every later run of casts, toggles and sweeps the vote stays
  exactly so and no call of \<^verbatim>\<open>sendVote\<close> is made for its key.
\<close>

theorem C9_offline_sweep_strands_vote:
  assumes "distinct (map vote_id (db s))"
    and "\<not> isOnline s"
    and "table_get k (db s) = Some v"
    and "status v = Queued"
  shows "table_get k (db (fst (processQueue s))) = Some (v\<lparr>status := Sending\<rparr>) \<and>
         table_get k (db (fst (run digest es (fst (processQueue s))))) =
           Some (v\<lparr>status := Sending\<rparr>) \<and>
         k \<notin> fst ` set (snd (run digest es (fst (processQueue s))))"
proof -
  have vin: "v \<in> set (db s)" "vote_id v = k"
    using table_get_SomeD [OF assms(3)] by simp_all
  then have "k \<in> vote_id ` set (table_where Queued (db s))"
    using assms(4) by (auto simp: table_where_def)
  then have "map_of (snd (processQueue s)) k = Some (Inr False)"
    using assms(2) by (simp add: processQueue_log processLoop_offline map_of_const)
  then have first: "table_get k (db (fst (processQueue s))) = Some (v\<lparr>status := Sending\<rparr>)"
    using processQueue_get [OF assms(1), of k] assms(3) by (simp add: effect_def)
  have d1: "distinct (map vote_id (db (fst (processQueue s))))"
    using assms(1) by (rule processQueue_distinct)
  show ?thesis
    using first run_not_queued [OF d1 first, of digest es] by simp
qed

theorem C9_offline_sweep_strands_vote_witness:
  "distinct (map vote_id (db (mount False (\<lambda>_. True) [vote_a, vote_b]))) \<and>
   \<not> isOnline (mount False (\<lambda>_. True) [vote_a, vote_b]) \<and>
   table_get ''vote-2-b'' (db (mount False (\<lambda>_. True) [vote_a, vote_b])) = Some vote_b \<and>
   status vote_b = Queued \<and>
   table_get ''vote-2-b'' (db (fst (processQueue (mount False (\<lambda>_. True) [vote_a, vote_b])))) =
     Some (vote_b\<lparr>status := Sending\<rparr>) \<and>
   table_get ''vote-2-b''
     (db (fst (run digest0 [ToggleOnline, ProcessQueue, CastVote 3 ''c'' ''key-c'', ProcessQueue]
        (fst (processQueue (mount False (\<lambda>_. True) [vote_a, vote_b])))))) =
     Some (vote_b\<lparr>status := Sending\<rparr>) \<and>
   ''vote-2-b'' \<notin> fst ` set (snd
      (run digest0 [ToggleOnline, ProcessQueue, CastVote 3 ''c'' ''key-c'', ProcessQueue]
        (fst (processQueue (mount False (\<lambda>_. True) [vote_a, vote_b])))))"
proof -
  let ?s = "mount False (\<lambda>_. True) [vote_a, vote_b]"
  have h1: "distinct (map vote_id (db ?s))" by code_simp
  have h2: "\<not> isOnline ?s" by code_simp
  have h3: "table_get ''vote-2-b'' (db ?s) = Some vote_b" by code_simp
  have h4: "status vote_b = Queued" by code_simp
  from C9_offline_sweep_strands_vote [OF h1 h2 h3 h4, of digest0
      "[ToggleOnline, ProcessQueue, CastVote 3 ''c'' ''key-c'', ProcessQueue]"] h1 h2 h3 h4
  show ?thesis by blast
qed

section \<open>Calls within one sweep\<close>

lemma processLoopEnv_ids:
  "map fst (snd (processLoopEnv digest env q s)) = map vote_id q"
  by (induction q arbitrary: env s) (simp_all add: split_beta Let_def processVote_log)

lemma processLoopEnv_quiet: "processLoopEnv digest [] q s = processLoop q s"
  by (induction q arbitrary: s) (simp_all add: split_beta Let_def)

lemma processQueueEnv_quiet: "processQueueEnv digest [] [] s = processQueue s"
  by (simp add: processQueueEnv_def processQueue_def processLoopEnv_quiet)

lemma attempted_sub: "set (attempted log) \<subseteq> set (map fst log)"
  by (auto simp: attempted_def)

lemma attempted_distinct: "distinct (map fst log) \<Longrightarrow> distinct (attempted log)"
  by (simp add: attempted_def distinct_map_filter)

text \<open>
  C10. In a table with unique keys, whatever casts and toggles arrive while a sweep is
  running, the sweep calls \<^verbatim>\<open>sendVote\<close> once for each vote that was Queued in the
  snapshot taken at its start, one after the other in the snapshot's order, and for no
  other key: no key is attempted twice, and a vote cast after the snapshot is not
  attempted by this sweep.
\<close>

theorem C10_one_call_per_snapshot_vote:
  assumes "distinct (map vote_id (db s))"
  shows "map fst (snd (processQueueEnv digest env fin s)) = map vote_id (table_where Queued (db s)) \<and>
         distinct (attempted (snd (processQueueEnv digest env fin s))) \<and>
         set (attempted (snd (processQueueEnv digest env fin s)))
           \<subseteq> set (map vote_id (table_where Queued (db s)))"
proof -
  have ids: "map fst (snd (processQueueEnv digest env fin s)) = map vote_id (table_where Queued (db s))"
    by (simp add: processQueueEnv_def Let_def split_beta processLoopEnv_ids)
  have "distinct (map fst (snd (processQueueEnv digest env fin s)))"
    unfolding ids using assms by (rule snapshot_distinct)
  then have "distinct (attempted (snd (processQueueEnv digest env fin s)))"
    by (rule attempted_distinct)
  moreover have "set (attempted (snd (processQueueEnv digest env fin s)))
           \<subseteq> set (map vote_id (table_where Queued (db s)))"
    using attempted_sub [of "snd (processQueueEnv digest env fin s)"] unfolding ids .
  ultimately show ?thesis using ids by simp
qed

theorem C10_one_call_per_snapshot_vote_witness:
  "distinct (map vote_id (db (mount True (\<lambda>i. i \<noteq> 0) [vote_a, vote_b]))) \<and>
   map fst (snd (processQueueEnv digest0 [[], [Cast 3 ''c'' ''key-c'']] []
       (mount True (\<lambda>i. i \<noteq> 0) [vote_a, vote_b]))) = [''vote-1-a'', ''vote-2-b''] \<and>
   distinct (attempted (snd (processQueueEnv digest0 [[], [Cast 3 ''c'' ''key-c'']] []
       (mount True (\<lambda>i. i \<noteq> 0) [vote_a, vote_b])))) \<and>
   map vote_id (db (fst (processQueueEnv digest0 [[], [Cast 3 ''c'' ''key-c'']] []
       (mount True (\<lambda>i. i \<noteq> 0) [vote_a, vote_b])))) = [''vote-1-a'', ''vote-3-c'']"
proof -
  let ?s = "mount True (\<lambda>i. i \<noteq> 0) [vote_a, vote_b]"
  let ?env = "[[], [Cast 3 ''c'' ''key-c'']]"
  have h: "distinct (map vote_id (db ?s))" by code_simp
  have e: "map vote_id (table_where Queued (db ?s)) = [''vote-1-a'', ''vote-2-b'']" by code_simp
  have a: "map vote_id (db (fst (processQueueEnv digest0 ?env [] ?s))) = [''vote-1-a'', ''vote-3-c'']"
    by code_simp
  from C10_one_call_per_snapshot_vote [OF h, of digest0 ?env "[]"] h e a
  show ?thesis by simp
qed

end
